theory Spec2Isabelle
  imports Complex_Main "HOL-Library.Log_Nat" "HOL-Library.Sublist" "HOL-Library.AList"
begin

section \<open>Python arithmetic used by the progress computation\<close>

text \<open>
  \<^verbatim>\<open>ProcessingThread.run\<close> computes its progress values as
  \<^verbatim>\<open>int((i + 1) / total_files * 20)\<close> and \<^verbatim>\<open>20 + int((i + 1) / total_files * 40)\<close>.
  In Python 3 the operator \<^verbatim>\<open>/\<close> on two ints is true division: the result is the
  binary64 float nearest to the exact quotient (ties to even). The product of that float
  with the int \<^verbatim>\<open>20\<close> is again rounded to binary64, and \<^verbatim>\<open>int\<close> truncates towards zero.

  A finite double is modelled by the rational number it denotes. Rounding keeps 53
  significant bits; the exponent range is not bounded, which agrees with binary64 for every
  value of magnitude between \<open>2 powi (-1022)\<close> and \<open>2 powi 1023\<close>, hence for every quotient
  \<open>(i + 1) / n\<close> of a list index and a list length.
\<close>

definition float_exponent :: "rat \<Rightarrow> int" where
  \<comment> \<open>for \<open>0 < x\<close>: the \<open>e\<close> with \<open>2 powi e \<le> x < 2 powi (e + 1)\<close>\<close>
  "float_exponent x =
     (let (p, q) = quotient_of x; d = bitlen p - bitlen q
      in if 2 powi d \<le> x then d else d - 1)"

definition round_half_even :: "rat \<Rightarrow> int" where
  "round_half_even x =
     (let f = \<lfloor>x\<rfloor>; r = x - of_int f
      in if r < 1 / 2 then f else if 1 / 2 < r then f + 1
         else if even f then f else f + 1)"

definition to_double :: "rat \<Rightarrow> rat" where
  \<comment> \<open>round to nearest, ties to even, 53-bit significand\<close>
  "to_double x =
     (if x = 0 then 0
      else let e = float_exponent \<bar>x\<bar>
           in sgn x * (of_int (round_half_even (\<bar>x\<bar> * 2 powi (52 - e))) * 2 powi (e - 52)))"


definition true_divide :: "int \<Rightarrow> int \<Rightarrow> string + rat" where
  \<comment> \<open>\<^verbatim>\<open>a / b\<close> on ints; \<open>Inl\<close> is the message of the \<^verbatim>\<open>ZeroDivisionError\<close>\<close>
  "true_divide a b =
     (if b = 0 then Inl ''division by zero'' else Inr (to_double (of_int a / of_int b)))"

definition float_mul_int :: "rat \<Rightarrow> int \<Rightarrow> rat" where
  \<comment> \<open>\<^verbatim>\<open>x * k\<close> for a float \<open>x\<close> and an int \<open>k\<close> that is itself a double\<close>
  "float_mul_int x k = to_double (x * of_int k)"

definition py_int :: "rat \<Rightarrow> int" where
  \<comment> \<open>\<^verbatim>\<open>int(x)\<close> on a float: truncation towards zero\<close>
  "py_int x = (if 0 \<le> x then \<lfloor>x\<rfloor> else \<lceil>x\<rceil>)"

definition validation_progress :: "nat \<Rightarrow> nat \<Rightarrow> string + int" where
  \<comment> \<open>\<^verbatim>\<open>int((i + 1) / total_files * 20)\<close>\<close>
  "validation_progress i total_files =
     (case true_divide (int i + 1) (int total_files) of
        Inl e \<Rightarrow> Inl e
      | Inr r \<Rightarrow> Inr (py_int (float_mul_int r 20)))"

definition loading_progress :: "nat \<Rightarrow> nat \<Rightarrow> string + int" where
  \<comment> \<open>\<^verbatim>\<open>20 + int((i + 1) / total_files * 40)\<close>\<close>
  "loading_progress i total_files =
     (case true_divide (int i + 1) (int total_files) of
        Inl e \<Rightarrow> Inl e
      | Inr r \<Rightarrow> Inr (20 + py_int (float_mul_int r 40)))"

text \<open>The same two values as total functions, for a non-empty list of \<open>n\<close> files.\<close>

definition validating_value :: "nat \<Rightarrow> nat \<Rightarrow> int" where
  "validating_value i n = py_int (to_double (to_double (of_nat (i + 1) / of_nat n) * 20))"

definition loading_value :: "nat \<Rightarrow> nat \<Rightarrow> int" where
  "loading_value i n = 20 + py_int (to_double (to_double (of_nat (i + 1) / of_nat n) * 40))"

text \<open>\<^verbatim>\<open>str(n)\<close> for a non-negative int.\<close>

fun str_nat :: "nat \<Rightarrow> string" where
  "str_nat n =
     (if n < 10 then [char_of (48 + n)] else str_nat (n div 10) @ [char_of (48 + n mod 10)])"

declare str_nat.simps [simp del]


section \<open>The processing thread\<close>

text \<open>
  \<^verbatim>\<open>ProcessingThread.run\<close> talks to three classes that the repository imports and does not
  contain (\<^verbatim>\<open>FileValidator\<close>, \<^verbatim>\<open>FileHandler\<close>, \<^verbatim>\<open>ExcelProcessor\<close>). They are
  parameters of the model. Every call may raise: a result \<open>Inl msg\<close> is an exception whose
  \<^verbatim>\<open>str\<close> is \<open>msg\<close>. \<^verbatim>\<open>os.path.basename\<close> belongs to the platform and is a parameter as
  well. Creating the \<^verbatim>\<open>FileHandler\<close> and the \<^verbatim>\<open>ExcelProcessor\<close> (lines 239 and 240) and the
  calls to the logger are taken to succeed; they have no effect on the run and are left
  out. The collaborators answer the same question the same way throughout one run.
\<close>

record ('d, 'p) collaborators =
  is_valid_excel_file :: "string \<Rightarrow> bool"
  validate_file_accessibility :: "string \<Rightarrow> string + bool"
  validate_string_inputs :: "(string \<times> string) list \<Rightarrow> string list"
  load_excel_file :: "string \<Rightarrow> string + 'd"
  excel_process_files :: "'d list \<Rightarrow> (string \<times> string) list \<Rightarrow> string + 'p"
  save_excel_file :: "'p \<Rightarrow> string \<Rightarrow> string + unit"
  os_path_basename :: "string \<Rightarrow> string"

text \<open>
  What a run does that can be observed from outside: the calls it makes to its
  collaborators and the three signals it emits (\<^verbatim>\<open>progress_updated\<close>,
  \<^verbatim>\<open>processing_complete\<close>, \<^verbatim>\<open>processing_error\<close>), in program order. The signals are
  delivered to the window in the order in which the thread emits them.
\<close>

datatype ('d, 'p) event =
    Validate string
  | Load string
  | Process "'d list" "(string \<times> string) list"
  | Save 'p string
  | Progress int
  | Complete string
  | Error string

text \<open>The first loop of \<^verbatim>\<open>run\<close> (lines 244 to 253).\<close>

fun validate_loop ::
  "('d, 'p) collaborators \<Rightarrow> nat \<Rightarrow> nat \<Rightarrow> string list \<Rightarrow> ('d, 'p) event list \<times> (string + unit)"
where
  "validate_loop c total_files i [] = ([], Inr ())"
| "validate_loop c total_files i (file_path # rest) =
     (case validate_file_accessibility c file_path of
        Inl e \<Rightarrow> ([Validate file_path], Inl e)
      | Inr ok \<Rightarrow>
          if \<not> ok then ([Validate file_path], Inl (''Cannot access file: '' @ file_path))
          else
            (case validation_progress i total_files of
               Inl e \<Rightarrow> ([Validate file_path], Inl e)
             | Inr progress \<Rightarrow>
                 (case validate_loop c total_files (i + 1) rest of
                    (evs, r) \<Rightarrow> (Validate file_path # Progress progress # evs, r))))"

text \<open>The second loop (lines 259 to 268); it returns \<^verbatim>\<open>loaded_data\<close>.\<close>

fun load_loop ::
  "('d, 'p) collaborators \<Rightarrow> nat \<Rightarrow> nat \<Rightarrow> string list \<Rightarrow> ('d, 'p) event list \<times> (string + 'd list)"
where
  "load_loop c total_files i [] = ([], Inr [])"
| "load_loop c total_files i (file_path # rest) =
     (case load_excel_file c file_path of
        Inl e \<Rightarrow> ([Load file_path], Inl e)
      | Inr file_data \<Rightarrow>
          (case loading_progress i total_files of
             Inl e \<Rightarrow> ([Load file_path], Inl e)
           | Inr progress \<Rightarrow>
               (case load_loop c total_files (i + 1) rest of
                  (evs, Inl e) \<Rightarrow> (Load file_path # Progress progress # evs, Inl e)
                | (evs, Inr loaded) \<Rightarrow>
                    (Load file_path # Progress progress # evs, Inr (file_data # loaded)))))"

text \<open>Lines 270 to 285: merge, save, and the progress values around them.\<close>

definition merge_and_save ::
  "('d, 'p) collaborators \<Rightarrow> 'd list \<Rightarrow> (string \<times> string) list \<Rightarrow> string
     \<Rightarrow> ('d, 'p) event list \<times> (string + unit)"
where
  "merge_and_save c loaded_data string_values output_path =
     (case excel_process_files c loaded_data string_values of
        Inl e \<Rightarrow> ([Progress 70, Process loaded_data string_values], Inl e)
      | Inr processed_data \<Rightarrow>
          (case save_excel_file c processed_data output_path of
             Inl e \<Rightarrow>
               ([Progress 70, Process loaded_data string_values, Progress 85,
                 Save processed_data output_path], Inl e)
           | Inr _ \<Rightarrow>
               ([Progress 70, Process loaded_data string_values, Progress 85,
                 Save processed_data output_path, Progress 100], Inr ())))"

text \<open>The body of the \<^verbatim>\<open>try\<close> block: an exception ends it at once.\<close>

definition try_body ::
  "('d, 'p) collaborators \<Rightarrow> string list \<Rightarrow> (string \<times> string) list \<Rightarrow> string
     \<Rightarrow> ('d, 'p) event list \<times> (string + unit)"
where
  "try_body c input_files string_values output_path =
     (let total_files = length input_files
      in case validate_loop c total_files 0 input_files of
           (ev1, Inl e) \<Rightarrow> (ev1, Inl e)
         | (ev1, Inr _) \<Rightarrow>
             (case load_loop c total_files 0 input_files of
                (ev2, Inl e) \<Rightarrow> (ev1 @ ev2, Inl e)
              | (ev2, Inr loaded_data) \<Rightarrow>
                  (case merge_and_save c loaded_data string_values output_path of
                     (ev3, r) \<Rightarrow> (ev1 @ ev2 @ ev3, r))))"

text \<open>
  \<^verbatim>\<open>run\<close>: the \<^verbatim>\<open>try\<close> block, then \<^verbatim>\<open>processing_complete\<close> with the summary, or the
  \<^verbatim>\<open>except\<close> clause with \<^verbatim>\<open>processing_error\<close>.
\<close>

definition run ::
  "('d, 'p) collaborators \<Rightarrow> string list \<Rightarrow> (string \<times> string) list \<Rightarrow> string
     \<Rightarrow> ('d, 'p) event list"
where
  "run c input_files string_values output_path =
     (case try_body c input_files string_values output_path of
        (evs, Inl e) \<Rightarrow> evs @ [Error (''Error during processing: '' @ e)]
      | (evs, Inr _) \<Rightarrow>
          evs @ [Complete (''Successfully processed '' @ str_nat (length input_files)
                   @ '' files and saved to '' @ os_path_basename c output_path @ ''!'')])"

text \<open>Reading a trace.\<close>

fun progress_values :: "('d, 'p) event list \<Rightarrow> int list" where
  "progress_values [] = []"
| "progress_values (Progress p # evs) = p # progress_values evs"
| "progress_values (_ # evs) = progress_values evs"


fun is_success :: "('d, 'p) event list \<Rightarrow> bool" where
  "is_success [] = False"
| "is_success [Complete _] = True"
| "is_success [_] = False"
| "is_success (_ # evs) = is_success evs"



text \<open>
  Vocabulary for stating what the two loops do. A file is accessible when the validator
  returns a true value for it; otherwise the loop ends with the validator's own exception,
  or with the exception of line 249. The trace of \<open>k\<close> rounds of a loop that all pass
  starts at index \<open>i\<close> of \<open>n\<close> files.
\<close>

definition accessible :: "('d, 'p) collaborators \<Rightarrow> string \<Rightarrow> bool" where
  "accessible c f = (validate_file_accessibility c f = Inr True)"

definition access_error :: "('d, 'p) collaborators \<Rightarrow> string \<Rightarrow> string" where
  "access_error c f =
     (case validate_file_accessibility c f of
        Inl e \<Rightarrow> e
      | Inr _ \<Rightarrow> ''Cannot access file: '' @ f)"

fun validating_trace :: "nat \<Rightarrow> nat \<Rightarrow> string list \<Rightarrow> ('d, 'p) event list" where
  "validating_trace n i [] = []"
| "validating_trace n i (f # fs) =
     Validate f # Progress (validating_value i n) # validating_trace n (i + 1) fs"

definition loadable :: "('d, 'p) collaborators \<Rightarrow> string \<Rightarrow> bool" where
  "loadable c f = (case load_excel_file c f of Inl _ \<Rightarrow> False | Inr _ \<Rightarrow> True)"

definition load_error :: "('d, 'p) collaborators \<Rightarrow> string \<Rightarrow> string" where
  "load_error c f = (case load_excel_file c f of Inl e \<Rightarrow> e | Inr _ \<Rightarrow> [])"

definition loaded_tables :: "('d, 'p) collaborators \<Rightarrow> string list \<Rightarrow> 'd list" where
  "loaded_tables c fs =
     concat (map (\<lambda>f. case load_excel_file c f of Inl _ \<Rightarrow> [] | Inr d \<Rightarrow> [d]) fs)"

fun loading_trace :: "nat \<Rightarrow> nat \<Rightarrow> string list \<Rightarrow> ('d, 'p) event list" where
  "loading_trace n i [] = []"
| "loading_trace n i (f # fs) =
     Load f # Progress (loading_value i n) # loading_trace n (i + 1) fs"

text \<open>
  The progress values of a run over \<open>n\<close> files that succeeds, in order: the Validating
  band, the Loading band, the two values around the merge, and the final 100.
\<close>

definition schedule :: "nat \<Rightarrow> int list" where
  "schedule n =
     map (\<lambda>i. validating_value i n) [0..<n] @ map (\<lambda>i. loading_value i n) [0..<n]
       @ [70, 85, 100]"



section \<open>The main window\<close>

text \<open>Python's \<^verbatim>\<open>str\<close> methods, on strings whose code points are below 256.\<close>

definition isspace :: "char \<Rightarrow> bool" where
  "isspace ch =
     (let n = (of_char ch :: nat)
      in (9 \<le> n \<and> n \<le> 13) \<or> (28 \<le> n \<and> n \<le> 32) \<or> n = 133 \<or> n = 160)"

definition strip :: "string \<Rightarrow> string" where
  "strip s = rev (dropWhile isspace (rev (dropWhile isspace s)))"

definition lower_char :: "char \<Rightarrow> char" where
  "lower_char ch =
     (let n = (of_char ch :: nat)
      in if (65 \<le> n \<and> n \<le> 90) \<or> (192 \<le> n \<and> n \<le> 222 \<and> n \<noteq> 215)
         then char_of (n + 32) else ch)"

definition lower :: "string \<Rightarrow> string" where
  "lower s = map lower_char s"

fun join :: "string \<Rightarrow> string list \<Rightarrow> string" where
  "join sep [] = []"
| "join sep [x] = x"
| "join sep (x # y # ys) = x @ sep @ join sep (y # ys)"




record main_window =
  input_files :: "string list"
  output_path :: string
  string_fields :: "(string \<times> string) list"

definition get_string_values :: "main_window \<Rightarrow> (string \<times> string) list" where
  "get_string_values w = map (\<lambda>(key, field). (key, strip field)) (string_fields w)"

text \<open>
  \<^verbatim>\<open>browse_files\<close> and \<^verbatim>\<open>dropEvent\<close> keep the files that pass
  \<^verbatim>\<open>FileValidator.is_valid_excel_file\<close>; \<^verbatim>\<open>on_files_selected\<close> stores them. With no
  valid file the selection of the window is left as it was.
\<close>

definition select_files :: "('d, 'p) collaborators \<Rightarrow> string list \<Rightarrow> main_window \<Rightarrow> main_window" where
  "select_files c files w =
     (let valid_files = filter (is_valid_excel_file c) files
      in if valid_files \<noteq> [] then w\<lparr>input_files := valid_files\<rparr> else w)"

text \<open>
  \<^verbatim>\<open>MainWindow.process_files\<close>: either a warning box (title and text) and nothing else, or
  a processing thread is started, whose run is the trace.
\<close>

datatype ('d, 'p) outcome = Warning string string | Started "('d, 'p) event list"

definition process_files :: "('d, 'p) collaborators \<Rightarrow> main_window \<Rightarrow> ('d, 'p) outcome" where
  "process_files c w =
     (if input_files w = [] then Warning ''No Files'' ''Please select input files first.''
      else if output_path w = [] then
        Warning ''No Output Location'' ''Please choose where to save the output file.''
      else
        let string_values = get_string_values w;
            validation_errors = validate_string_inputs c string_values
        in if validation_errors \<noteq> [] then
             Warning ''Invalid Configuration''
               (''Please check the following fields:'' @ [CHR 0x0A] @ join [CHR 0x0A] validation_errors)
           else Started (run c (input_files w) string_values (output_path w)))"

fun events_of :: "('d, 'p) outcome \<Rightarrow> ('d, 'p) event list" where
  "events_of (Warning _ _) = []"
| "events_of (Started evs) = evs"


section \<open>Metadata validation\<close>

text \<open>
  The five keys of a metadata record, in their fixed order (specification, section 3).
\<close>

definition metadata_keys :: "string list" where
  "metadata_keys = [''project_name'', ''department'', ''analyst'', ''report_date'', ''version'']"

definition field_value :: "(string \<times> string) list \<Rightarrow> string \<Rightarrow> string" where
  \<comment> \<open>the trimmed value of a field; a key that is absent counts as blank\<close>
  "field_value record key = strip (case map_of record key of None \<Rightarrow> [] | Some v \<Rightarrow> v)"

text \<open>
  Modelled from the spec: \<^verbatim>\<open>FileValidator.validate_string_inputs\<close> is imported from
  \<^verbatim>\<open>utils/validators.py\<close>, which the repository does not contain. Section 4.1 of the
  specification describes it as \<^verbatim>\<open>validateMetadata\<close>: for each required field it reports
  "empty" if the field is blank after trimming and "too long" if it exceeds a fixed maximum
  length; all fields are checked and all violations are reported together. The maximum
  length is a parameter.
\<close>

definition field_errors :: "nat \<Rightarrow> (string \<times> string) list \<Rightarrow> string \<Rightarrow> string list" where
  "field_errors max_length record key =
     (let v = field_value record key
      in if v = [] then [key @ '': empty'']
         else if max_length < length v then [key @ '': too long'']
         else [])"

definition validateMetadata :: "nat \<Rightarrow> (string \<times> string) list \<Rightarrow> string list" where
  "validateMetadata max_length record =
     concat (map (field_errors max_length record) metadata_keys)"


section \<open>Merging\<close>

text \<open>Cells and tables as in section 3 of the specification.\<close>

datatype cell = Text string | Number rat | Date string | Boolean bool | Empty

record table =
  header :: "string list"
  rows :: "(string \<times> cell) list list"
  source :: string

definition cell_of :: "(string \<times> cell) list \<Rightarrow> string \<Rightarrow> cell" where
  \<comment> \<open>a row maps column names to cells and defaults to \<open>Empty\<close>\<close>
  "cell_of row col = (case map_of row col of None \<Rightarrow> Empty | Some v \<Rightarrow> v)"

text \<open>
  Modelled from the spec: \<^verbatim>\<open>ExcelProcessor.process_files\<close> is imported from
  \<^verbatim>\<open>core/excel_processor.py\<close>, which the repository does not contain. Section 4.4 of the
  specification describes it as \<^verbatim>\<open>MergeEngine.merge\<close>. Step 1: iterate the tables in input
  order; for each table, append any column name not already present (case-insensitive
  comparison, first-seen casing retained).
\<close>

definition add_column :: "string list \<Rightarrow> string \<Rightarrow> string list" where
  "add_column hdr col = (if lower col \<in> set (map lower hdr) then hdr else hdr @ [col])"

definition union_header :: "table list \<Rightarrow> string list" where
  "union_header tables =
     fold (\<lambda>t hdr. fold (\<lambda>col h. add_column h col) (header t) hdr) tables []"

text \<open>
  Modelled from the spec: step 3 of \<^verbatim>\<open>MergeEngine.merge\<close>. A merged row copies the cells
  of the columns present in its table, is empty in the columns that are absent, and carries
  the values of the metadata record in the metadata columns.
\<close>

definition merge_row ::
  "string list \<Rightarrow> (string \<times> string) list \<Rightarrow> table \<Rightarrow> (string \<times> cell) list \<Rightarrow> (string \<times> cell) list"
where
  "merge_row hdr metadata t row =
     map (\<lambda>u. (u, case find (\<lambda>col. lower col = lower u) (header t) of
                     None \<Rightarrow> Empty
                   | Some col \<Rightarrow> cell_of row col)) hdr
     @ map (\<lambda>key. (key, Text (case map_of metadata key of None \<Rightarrow> [] | Some v \<Rightarrow> v)))
         metadata_keys"

text \<open>
  Modelled from the spec: \<^verbatim>\<open>MergeEngine.merge\<close> as a whole (steps 1 to 4). The metadata
  columns follow the data columns (step 2); rows are appended table by table, none is
  dropped or added. Which tables have irreconcilable column types is a policy the
  specification leaves open (step 4): it is the parameter \<open>irreconcilable\<close>.
\<close>

definition merge ::
  "(table list \<Rightarrow> bool) \<Rightarrow> table list \<Rightarrow> (string \<times> string) list \<Rightarrow> string + table"
where
  "merge irreconcilable tables metadata =
     (if irreconcilable tables then Inl ''SchemaConflictError''
      else Inr \<lparr>header = union_header tables @ metadata_keys,
                rows = concat (map (\<lambda>t. map (merge_row (union_header tables) metadata t) (rows t))
                                tables),
                source = []\<rparr>)"

fun saved_tables :: "('d, 'p) event list \<Rightarrow> 'p list" where
  \<comment> \<open>what a run handed to \<^verbatim>\<open>save_excel_file\<close>\<close>
  "saved_tables [] = []"
| "saved_tables (Save p _ # evs) = p # saved_tables evs"
| "saved_tables (_ # evs) = saved_tables evs"


section \<open>Saving\<close>

text \<open>
  A file system maps paths to contents. Saving goes through a sequence of file-system
  states; a crash leaves the file system in one of them. What goes wrong during one save is
  decided by the environment: nothing, the write of the temporary file stops after some
  bytes, or the rename is refused.
\<close>

type_synonym filesystem = "string \<rightharpoonup> string"

datatype fault = NoFault | WriteFails nat | RenameFails

definition dirname :: "string \<Rightarrow> string" where
  "dirname path = rev (dropWhile (\<lambda>ch. ch \<noteq> CHR ''/'') (rev path))"

definition temp_path :: "string \<Rightarrow> string" where
  "temp_path path = path @ ''.tmp''"

definition write_states :: "filesystem \<Rightarrow> string \<Rightarrow> string \<Rightarrow> nat \<Rightarrow> filesystem list" where
  \<comment> \<open>the file at \<open>path\<close> is created and grows byte by byte up to \<open>k\<close> bytes of \<open>data\<close>\<close>
  "write_states fs path data k = map (\<lambda>j. fs(path \<mapsto> take j data)) [0..<Suc k]"

definition rename :: "string \<Rightarrow> string \<Rightarrow> filesystem \<Rightarrow> filesystem" where
  "rename src dst fs = (fs(dst := fs src))(src := None)"

text \<open>
  Modelled from the spec: \<^verbatim>\<open>FileHandler.save_excel_file\<close> is imported from
  \<^verbatim>\<open>core/file_handler.py\<close>, which the repository does not contain. Section 4.3 of the
  specification describes it as \<^verbatim>\<open>WorkbookWriter.save\<close>: it serializes the table to a new
  file at a temporary path in the same directory as the final path, then atomically renames
  it over the destination; it fails with a WriteError if the temporary write fails or the
  final rename fails. The result is the list of states the file system goes through and
  the outcome.
\<close>

definition save ::
  "('t \<Rightarrow> string) \<Rightarrow> fault \<Rightarrow> 't \<Rightarrow> string \<Rightarrow> filesystem \<Rightarrow> filesystem list \<times> (string + unit)"
where
  "save serialize flt t path fs =
     (let data = serialize t; tmp = temp_path path
      in case flt of
           WriteFails k \<Rightarrow> (write_states fs tmp data (min k (length data)), Inl ''WriteError'')
         | RenameFails \<Rightarrow> (write_states fs tmp data (length data), Inl ''WriteError'')
         | NoFault \<Rightarrow>
             (write_states fs tmp data (length data) @ [rename tmp path (fs(tmp \<mapsto> data))],
              Inr ()))"


section \<open>A concrete configuration\<close>

text \<open>
  Collaborators with a fixed behaviour, on which the model can be run: every file is
  accessible except \<^verbatim>\<open>missing.xlsx\<close>, every file loads (as its own name) except
  \<^verbatim>\<open>corrupt.xlsx\<close>, merging concatenates, saving succeeds.
\<close>

definition stub :: "(string, string) collaborators" where
  "stub =
     \<lparr>is_valid_excel_file = (\<lambda>p. p \<noteq> ''notes.txt''),
      validate_file_accessibility = (\<lambda>p. Inr (p \<noteq> ''missing.xlsx'')),
      validate_string_inputs = (\<lambda>_. []),
      load_excel_file = (\<lambda>p. if p = ''corrupt.xlsx'' then Inl ''cannot read'' else Inr p),
      excel_process_files = (\<lambda>ds _. Inr (concat ds)),
      save_excel_file = (\<lambda>_ _. Inr ()),
      os_path_basename = (\<lambda>p. p)\<rparr>"


text \<open>
  Scenarios 1 and 5 of the specification: two files with the header Name, Amount and
  three and two rows, and a file with the header Name, Region.
\<close>

definition sales_a :: table where
  "sales_a =
     \<lparr>header = [''Name'', ''Amount''],
      rows = [[(''Name'', Text ''Ann''), (''Amount'', Number 10)],
              [(''Name'', Text ''Bob''), (''Amount'', Number 20)],
              [(''Name'', Text ''Cy''), (''Amount'', Empty)]],
      source = ''a.xlsx''\<rparr>"

definition sales_b :: table where
  "sales_b =
     \<lparr>header = [''name'', ''Amount''],
      rows = [[(''name'', Text ''Dee''), (''Amount'', Number 5)],
              [(''name'', Text ''Eve''), (''Amount'', Number 7)]],
      source = ''b.xlsx''\<rparr>"

definition regions :: table where
  "regions =
     \<lparr>header = [''Name'', ''Region''],
      rows = [[(''Name'', Text ''Ann''), (''Region'', Text ''North'')]],
      source = ''c.xlsx''\<rparr>"

definition demo_metadata :: "(string \<times> string) list" where
  "demo_metadata =
     [(''project_name'', ''P1''), (''department'', ''D1''), (''analyst'', ''A1''),
      (''report_date'', ''2024-01-01''), (''version'', ''1'')]"

definition table_collaborators :: "(table, table) collaborators" where
  "table_collaborators =
     \<lparr>is_valid_excel_file = (\<lambda>_. True),
      validate_file_accessibility = (\<lambda>_. Inr True),
      validate_string_inputs = validateMetadata 256,
      load_excel_file =
        (\<lambda>p. if p = ''a.xlsx'' then Inr sales_a else if p = ''b.xlsx'' then Inr sales_b
             else if p = ''c.xlsx'' then Inr regions else Inl ''cannot read''),
      excel_process_files = merge (\<lambda>_. False),
      save_excel_file = (\<lambda>_ _. Inr ()),
      os_path_basename = (\<lambda>p. p)\<rparr>"


section \<open>Properties of the arithmetic\<close>

subsection \<open>Rounding to a double is monotone\<close>

lemma pow2_bitlen:
  assumes "0 < p"
  shows "(2::rat) powi (bitlen p - 1) \<le> of_int p" and "of_int p < (2::rat) powi bitlen p"
proof -
  have b: "1 \<le> bitlen p" using assms by (auto simp: bitlen_alt_def)
  from bitlen_bounds[OF assms] have lo: "2 ^ nat (bitlen p - 1) \<le> p" and hi: "p < 2 ^ nat (bitlen p)"
    by auto
  have "(of_int (2 ^ nat (bitlen p - 1)) :: rat) \<le> of_int p"
    using lo by (simp only: of_int_le_iff)
  then show "(2::rat) powi (bitlen p - 1) \<le> of_int p"
    using b by (simp add: power_int_def)
  have "(of_int p :: rat) < of_int (2 ^ nat (bitlen p))"
    using hi by (simp only: of_int_less_iff)
  then show "of_int p < (2::rat) powi bitlen p"
    using b by (simp add: power_int_def)
qed

lemma float_exponent_bounds:
  assumes "0 < x"
  shows "2 powi float_exponent x \<le> x" and "x < 2 powi (float_exponent x + 1)"
proof -
  obtain p q where pq: "quotient_of x = (p, q)" by force
  have q: "0 < q" using quotient_of_denom_pos[OF pq] .
  have x: "x = of_int p / of_int q" using quotient_of_div[OF pq] .
  have p: "0 < p" using assms q unfolding x by (simp add: zero_less_divide_iff)
  define d where "d = bitlen p - bitlen q"
  have fe: "float_exponent x = (if 2 powi d \<le> x then d else d - 1)"
    by (simp add: float_exponent_def pq d_def)
  have qr: "(0::rat) < of_int q" using q by simp
  have lo: "(2::rat) powi (d - 1) \<le> x"
  proof -
    have "(2::rat) powi (d - 1) * of_int q \<le> 2 powi (d - 1) * 2 powi bitlen q"
      using pow2_bitlen(2)[OF q] by (intro mult_left_mono) auto
    also have "\<dots> = 2 powi (bitlen p - 1)"
      by (simp add: d_def power_int_add[symmetric])
    also have "\<dots> \<le> of_int p" using pow2_bitlen(1)[OF p] .
    finally show ?thesis using qr unfolding x by (simp add: pos_le_divide_eq)
  qed
  have hi: "x < (2::rat) powi (d + 1)"
  proof -
    have "of_int p < (2::rat) powi bitlen p" using pow2_bitlen(2)[OF p] .
    also have "\<dots> = 2 powi (d + 1) * 2 powi (bitlen q - 1)"
      by (simp add: d_def power_int_add[symmetric])
    also have "\<dots> \<le> 2 powi (d + 1) * of_int q"
      using pow2_bitlen(1)[OF q] by (intro mult_left_mono) auto
    finally show ?thesis using qr unfolding x by (simp add: pos_divide_less_eq)
  qed
  show "2 powi float_exponent x \<le> x" using lo by (simp add: fe)
  show "x < 2 powi (float_exponent x + 1)" using hi by (auto simp: fe not_le)
qed

lemma pow2_less_imp: "(2::rat) powi a < 2 powi b \<Longrightarrow> a < b"
  by (rule ccontr) (use power_int_increasing[of b a "2::rat"] in auto)

lemma float_exponent_mono:
  assumes "0 < x" "x \<le> y"
  shows "float_exponent x \<le> float_exponent y"
proof -
  have "0 < y" using assms by simp
  have "(2::rat) powi float_exponent x \<le> x" using float_exponent_bounds(1)[OF assms(1)] .
  also have "x \<le> y" by fact
  also have "y < 2 powi (float_exponent y + 1)" using float_exponent_bounds(2)[OF \<open>0 < y\<close>] .
  finally have "float_exponent x < float_exponent y + 1" by (rule pow2_less_imp)
  then show ?thesis by simp
qed

lemma round_half_even_bounds:
  "\<lfloor>x\<rfloor> \<le> round_half_even x" "round_half_even x \<le> \<lfloor>x\<rfloor> + 1"
  by (simp_all add: round_half_even_def Let_def)

lemma round_half_even_of_int [simp]: "round_half_even (of_int k) = k"
  by (simp add: round_half_even_def)

lemma round_half_even_mono:
  assumes "x \<le> y"
  shows "round_half_even x \<le> round_half_even y"
proof (cases "\<lfloor>x\<rfloor> = \<lfloor>y\<rfloor>")
  case True
  then show ?thesis using assms by (auto simp: round_half_even_def Let_def)
next
  case False
  then have "\<lfloor>x\<rfloor> < \<lfloor>y\<rfloor>" using floor_mono[OF assms] by simp
  then have "round_half_even x \<le> \<lfloor>y\<rfloor>" using round_half_even_bounds(2)[of x] by simp
  then show ?thesis using round_half_even_bounds(1)[of y] by simp
qed

lemma to_double_pos_eq:
  "0 < x \<Longrightarrow> to_double x =
     of_int (round_half_even (x * 2 powi (52 - float_exponent x))) * 2 powi (float_exponent x - 52)"
  by (simp add: to_double_def Let_def)

lemma to_double_bounds:
  assumes "0 < x"
  shows "2 powi float_exponent x \<le> to_double x" and "to_double x \<le> 2 powi (float_exponent x + 1)"
proof -
  define e where "e = float_exponent x"
  define s :: rat where "s = 2 powi (52 - e)"
  have s: "0 < s" by (simp add: s_def)
  have td: "to_double x = of_int (round_half_even (x * s)) * 2 powi (e - 52)"
    using assms by (simp add: to_double_pos_eq e_def s_def)
  have "(2::rat) powi e * s = 2 powi 52" by (simp add: s_def power_int_add[symmetric])
  then have lo: "of_int (2 ^ 52) \<le> x * s"
    using mult_right_mono[OF float_exponent_bounds(1)[OF assms], of s] s by (simp add: e_def)
  have "(2::rat) powi (e + 1) * s = 2 powi 53" by (simp add: s_def power_int_add[symmetric])
  then have hi: "x * s \<le> of_int (2 ^ 53)"
    using mult_right_mono[OF less_imp_le[OF float_exponent_bounds(2)[OF assms]], of s] s
    by (simp add: e_def)
  have "2 ^ 52 \<le> round_half_even (x * s)"
    using round_half_even_mono[OF lo] by (simp only: round_half_even_of_int)
  then have "(of_int (2 ^ 52) :: rat) \<le> of_int (round_half_even (x * s))"
    by (simp only: of_int_le_iff)
  then have "of_int (2 ^ 52) * 2 powi (e - 52) \<le> to_double x"
    unfolding td by (intro mult_right_mono) auto
  moreover have "(of_int (2 ^ 52) :: rat) * 2 powi (e - 52) = 2 powi e"
    using power_int_add[of "2::rat" 52 "e - 52"] by simp
  ultimately show "2 powi float_exponent x \<le> to_double x" by (simp add: e_def)
  have "round_half_even (x * s) \<le> 2 ^ 53"
    using round_half_even_mono[OF hi] by (simp only: round_half_even_of_int)
  then have "(of_int (round_half_even (x * s)) :: rat) \<le> of_int (2 ^ 53)"
    by (simp only: of_int_le_iff)
  then have "to_double x \<le> of_int (2 ^ 53) * 2 powi (e - 52)"
    unfolding td by (intro mult_right_mono) auto
  moreover have "(of_int (2 ^ 53) :: rat) * 2 powi (e - 52) = 2 powi (e + 1)"
    using power_int_add[of "2::rat" 53 "e - 52"] by (simp add: add.commute)
  ultimately show "to_double x \<le> 2 powi (float_exponent x + 1)" by (simp add: e_def)
qed

lemma to_double_pos: "0 < x \<Longrightarrow> 0 < to_double x"
  using to_double_bounds(1)[of x] zero_less_power_int[of "2::rat" "float_exponent x"] by linarith

lemma to_double_mono:
  assumes "0 < x" "x \<le> y"
  shows "to_double x \<le> to_double y"
proof -
  have y: "0 < y" using assms by simp
  show ?thesis
  proof (cases "float_exponent x = float_exponent y")
    case True
    have "x * 2 powi (52 - float_exponent y) \<le> y * 2 powi (52 - float_exponent y)"
      using assms(2) by (intro mult_right_mono) auto
    then have "round_half_even (x * 2 powi (52 - float_exponent y))
                 \<le> round_half_even (y * 2 powi (52 - float_exponent y))"
      by (rule round_half_even_mono)
    then have "(of_int (round_half_even (x * 2 powi (52 - float_exponent y))) :: rat)
                 \<le> of_int (round_half_even (y * 2 powi (52 - float_exponent y)))"
      by (simp only: of_int_le_iff)
    then show ?thesis using assms(1) y True
      by (simp add: to_double_pos_eq mult_right_mono)
  next
    case False
    then have "float_exponent x + 1 \<le> float_exponent y"
      using float_exponent_mono[OF assms] by simp
    then have "(2::rat) powi (float_exponent x + 1) \<le> 2 powi float_exponent y"
      by (intro power_int_increasing) auto
    then show ?thesis
      using to_double_bounds(2)[OF assms(1)] to_double_bounds(1)[OF y] by linarith
  qed
qed

lemma to_double_1: "to_double 1 = 1"
  by code_simp

lemma to_double_20: "to_double 20 = 20"
  by code_simp

lemma to_double_40: "to_double 40 = 40"
  by code_simp

subsection \<open>The two progress formulas\<close>

lemma py_int_mono:
  assumes "x \<le> y"
  shows "py_int x \<le> py_int y"
proof (cases "0 \<le> x")
  case True
  then show ?thesis using assms by (simp add: py_int_def floor_mono)
next
  case False
  then have "\<lceil>x\<rceil> \<le> 0" by (simp add: ceiling_le_zero)
  show ?thesis
  proof (cases "0 \<le> y")
    case True
    then have "0 \<le> \<lfloor>y\<rfloor>" by simp
    moreover have "py_int x = \<lceil>x\<rceil>" "py_int y = \<lfloor>y\<rfloor>"
      using False True by (simp_all add: py_int_def)
    ultimately show ?thesis using \<open>\<lceil>x\<rceil> \<le> 0\<close> by linarith
  next
    case y: False
    then show ?thesis using False assms by (simp add: py_int_def ceiling_mono)
  qed
qed

lemma scaled_mono:
  assumes "0 < n" "i \<le> j" "0 < (k::rat)"
  shows "py_int (to_double (to_double (of_nat (i + 1) / of_nat n) * k))
           \<le> py_int (to_double (to_double (of_nat (j + 1) / of_nat n) * k))"
proof -
  have xi: "(0::rat) < of_nat (i + 1) / of_nat n" using assms(1) by simp
  have le: "(of_nat (i + 1) / of_nat n :: rat) \<le> of_nat (j + 1) / of_nat n"
    using assms(1,2) by (simp add: divide_right_mono)
  have "to_double (of_nat (i + 1) / of_nat n) \<le> to_double (of_nat (j + 1) / of_nat n)"
    by (rule to_double_mono[OF xi le])
  then have "to_double (of_nat (i + 1) / of_nat n) * k \<le> to_double (of_nat (j + 1) / of_nat n) * k"
    using assms(3) by (simp add: mult_right_mono)
  moreover have "0 < to_double (of_nat (i + 1) / of_nat n) * k"
    using to_double_pos[OF xi] assms(3) by simp
  ultimately show ?thesis by (intro py_int_mono to_double_mono)
qed

lemma scaled_nonneg:
  assumes "0 < n" "0 < (k::rat)"
  shows "0 \<le> py_int (to_double (to_double (of_nat (i + 1) / of_nat n) * k))"
proof -
  have xi: "(0::rat) < of_nat (i + 1) / of_nat n" using assms(1) by simp
  have "0 < to_double (of_nat (i + 1) / of_nat n) * k"
    using to_double_pos[OF xi] assms(2) by simp
  then have "0 < to_double (to_double (of_nat (i + 1) / of_nat n) * k)" by (rule to_double_pos)
  then show ?thesis by (simp add: py_int_def)
qed

lemma validating_value_mono: "0 < n \<Longrightarrow> i \<le> j \<Longrightarrow> validating_value i n \<le> validating_value j n"
  unfolding validating_value_def by (rule scaled_mono) simp_all

lemma loading_value_mono: "0 < n \<Longrightarrow> i \<le> j \<Longrightarrow> loading_value i n \<le> loading_value j n"
  unfolding loading_value_def using scaled_mono[of n i j 40] by simp

lemma validating_value_last: "0 < n \<Longrightarrow> validating_value (n - 1) n = 20"
  by (simp add: validating_value_def to_double_1 to_double_20 py_int_def)

lemma loading_value_last: "0 < n \<Longrightarrow> loading_value (n - 1) n = 60"
  by (simp add: loading_value_def to_double_1 to_double_40 py_int_def)

lemma validating_value_range: "i < n \<Longrightarrow> 0 \<le> validating_value i n \<and> validating_value i n \<le> 20"
  using validating_value_mono[of n i "n - 1"] validating_value_last[of n]
    scaled_nonneg[of n 20 i]
  by (simp add: validating_value_def)

lemma loading_value_range: "i < n \<Longrightarrow> 20 \<le> loading_value i n \<and> loading_value i n \<le> 60"
  using loading_value_mono[of n i "n - 1"] loading_value_last[of n]
    scaled_nonneg[of n 40 i]
  by (simp add: loading_value_def)

lemma validation_progress_eq:
  "0 < total_files \<Longrightarrow> validation_progress i total_files = Inr (validating_value i total_files)"
  by (simp add: validation_progress_def true_divide_def float_mul_int_def validating_value_def add.commute)

lemma loading_progress_eq:
  "0 < total_files \<Longrightarrow> loading_progress i total_files = Inr (loading_value i total_files)"
  by (simp add: loading_progress_def true_divide_def float_mul_int_def loading_value_def add.commute)


subsection \<open>The progress formulas are exact for every list that fits in memory\<close>















text \<open>
  The bound on the number of files is not idle: for a list that no memory holds, the two
  roundings can carry the product across an integer.
\<close>

lemma rounding_crosses_integer:
  "py_int (to_double (to_double (394423969624362468 / 2629493130829083125) * 20)) = 3 \<and>
   \<lfloor>(394423969624362468 / 2629493130829083125 * 20 :: rat)\<rfloor> = 2"
proof
  show "py_int (to_double (to_double (394423969624362468 / 2629493130829083125) * 20)) = 3"
    by code_simp
  show "\<lfloor>(394423969624362468 / 2629493130829083125 * 20 :: rat)\<rfloor> = 2"
    by (simp add: floor_eq_iff)
qed

section \<open>What the two loops and the run compute\<close>

lemma validate_loop_eq:
  "i + length fs = n \<Longrightarrow>
   validate_loop c n i fs =
     (let ok = takeWhile (accessible c) fs
      in if ok = fs then (validating_trace n i fs, Inr ())
         else (validating_trace n i ok @ [Validate (fs ! length ok)],
               Inl (access_error c (fs ! length ok))))"
proof (induction fs arbitrary: i)
  case Nil
  then show ?case by simp
next
  case (Cons f fs)
  have n: "0 < n" using Cons.prems by auto
  have ih: "validate_loop c n (i + 1) fs =
     (let ok = takeWhile (accessible c) fs
      in if ok = fs then (validating_trace n (i + 1) fs, Inr ())
         else (validating_trace n (i + 1) ok @ [Validate (fs ! length ok)],
               Inl (access_error c (fs ! length ok))))"
    using Cons.prems by (intro Cons.IH) simp
  show ?case
  proof (cases "accessible c f")
    case True
    then have "validate_file_accessibility c f = Inr True" by (simp add: accessible_def)
    then show ?thesis using True ih
      by (simp add: validation_progress_eq[OF n] Let_def)
  next
    case False
    then show ?thesis
      by (auto simp: accessible_def access_error_def split: sum.splits)
  qed
qed

lemma load_loop_eq:
  "i + length fs = n \<Longrightarrow>
   load_loop c n i fs =
     (let ok = takeWhile (loadable c) fs
      in if ok = fs then (loading_trace n i fs, Inr (loaded_tables c fs))
         else (loading_trace n i ok @ [Load (fs ! length ok)],
               Inl (load_error c (fs ! length ok))))"
proof (induction fs arbitrary: i)
  case Nil
  then show ?case by (simp add: loaded_tables_def)
next
  case (Cons f fs)
  have n: "0 < n" using Cons.prems by auto
  have ih: "load_loop c n (i + 1) fs =
     (let ok = takeWhile (loadable c) fs
      in if ok = fs then (loading_trace n (i + 1) fs, Inr (loaded_tables c fs))
         else (loading_trace n (i + 1) ok @ [Load (fs ! length ok)],
               Inl (load_error c (fs ! length ok))))"
    using Cons.prems by (intro Cons.IH) simp
  show ?case
  proof (cases "load_excel_file c f")
    case (Inl e)
    then have "\<not> loadable c f" by (simp add: loadable_def)
    then show ?thesis using Inl by (simp add: load_error_def)
  next
    case (Inr d)
    then have "loadable c f" by (simp add: loadable_def)
    moreover have "loaded_tables c (f # fs) = d # loaded_tables c fs"
      using Inr by (simp add: loaded_tables_def)
    ultimately show ?thesis using ih Inr
      by (simp add: loading_progress_eq[OF n] Let_def)
  qed
qed

lemma progress_values_append:
  "progress_values (xs @ ys) = progress_values xs @ progress_values ys"
  by (induction xs rule: progress_values.induct) simp_all

lemma progress_validating_trace:
  "progress_values (validating_trace n i fs :: ('d, 'p) event list) =
     map (\<lambda>j. validating_value j n) [i..<i + length fs]"
proof (induction fs arbitrary: i)
  case Nil
  show ?case by simp
next
  case (Cons f fs)
  have "[i..<i + length (f # fs)] = i # [i + 1..<(i + 1) + length fs]"
    by (subst upt_rec) simp
  then show ?case using Cons.IH[of "i + 1"] by simp
qed

lemma progress_loading_trace:
  "progress_values (loading_trace n i fs :: ('d, 'p) event list) =
     map (\<lambda>j. loading_value j n) [i..<i + length fs]"
proof (induction fs arbitrary: i)
  case Nil
  show ?case by simp
next
  case (Cons f fs)
  have "[i..<i + length (f # fs)] = i # [i + 1..<(i + 1) + length fs]"
    by (subst upt_rec) simp
  then show ?case using Cons.IH[of "i + 1"] by simp
qed

lemma run_eq:
  "run c fs sv out =
     (let n = length fs; ok = takeWhile (accessible c) fs; ld = takeWhile (loadable c) fs
      in if ok \<noteq> fs then
           validating_trace n 0 ok @
             [Validate (fs ! length ok),
              Error (''Error during processing: '' @ access_error c (fs ! length ok))]
         else if ld \<noteq> fs then
           validating_trace n 0 fs @ loading_trace n 0 ld @
             [Load (fs ! length ld),
              Error (''Error during processing: '' @ load_error c (fs ! length ld))]
         else
           validating_trace n 0 fs @ loading_trace n 0 fs @
             (case merge_and_save c (loaded_tables c fs) sv out of
                (ev3, Inl e) \<Rightarrow> ev3 @ [Error (''Error during processing: '' @ e)]
              | (ev3, Inr _) \<Rightarrow>
                  ev3 @ [Complete (''Successfully processed '' @ str_nat (length fs)
                           @ '' files and saved to '' @ os_path_basename c out @ ''!'')]))"
  by (simp add: run_def try_body_def validate_loop_eq load_loop_eq Let_def split: prod.splits sum.splits)

subsection \<open>The schedule\<close>

lemma is_success_append: "ys \<noteq> [] \<Longrightarrow> is_success (xs @ ys) = is_success ys"
proof (induction xs)
  case Nil
  show ?case by simp
next
  case (Cons a xs)
  then show ?case by (cases "xs @ ys") simp_all
qed

lemma sorted_map_upt:
  assumes "\<And>i j. a \<le> i \<Longrightarrow> i \<le> j \<Longrightarrow> j < b \<Longrightarrow> f i \<le> (f j :: int)"
  shows "sorted (map f [a..<b])"
proof -
  have "sorted_wrt (\<lambda>x y. f x \<le> f y) [a..<b]"
    by (rule sorted_wrt_mono_rel[OF _ sorted_upt[of a b]]) (auto intro: assms)
  then show ?thesis by (simp add: sorted_map)
qed

lemma sorted_schedule: "sorted (schedule n)"
proof (cases "n = 0")
  case True
  then show ?thesis by (simp add: schedule_def)
next
  case False
  then have n: "0 < n" by simp
  have v: "sorted (map (\<lambda>i. validating_value i n) [0..<n])"
    by (rule sorted_map_upt) (rule validating_value_mono[OF n])
  have l: "sorted (map (\<lambda>i. loading_value i n) [0..<n])"
    by (rule sorted_map_upt) (rule loading_value_mono[OF n])
  have b: "\<forall>i<n. validating_value i n \<le> 20 \<and> 20 \<le> loading_value i n \<and> loading_value i n \<le> 60"
    using validating_value_range[of _ n] loading_value_range[of _ n] by blast
  have r1: "x \<le> 20" if "x \<in> set (map (\<lambda>i. validating_value i n) [0..<n])" for x
    using that b by auto
  have r2: "20 \<le> x \<and> x \<le> 60" if "x \<in> set (map (\<lambda>i. loading_value i n) [0..<n])" for x
    using that b by auto
  have s3: "\<forall>x\<in>set (map (\<lambda>i. loading_value i n) [0..<n]). \<forall>y\<in>set [70, 85, 100]. x \<le> y"
    using r2 by fastforce
  have s12: "\<forall>x\<in>set (map (\<lambda>i. validating_value i n) [0..<n]).
      \<forall>y\<in>set (map (\<lambda>i. loading_value i n) [0..<n] @ [70, 85, 100]). x \<le> y"
  proof (intro ballI)
    fix x y
    assume "x \<in> set (map (\<lambda>i. validating_value i n) [0..<n])"
      and y: "y \<in> set (map (\<lambda>i. loading_value i n) [0..<n] @ [70, 85, 100])"
    then have "x \<le> 20" using r1 by blast
    moreover have "20 \<le> y" using y r2 by fastforce
    ultimately show "x \<le> y" by linarith
  qed
  show ?thesis
    unfolding schedule_def sorted_append using v l s3 s12 by simp
qed

lemma schedule_range: "p \<in> set (schedule n) \<Longrightarrow> 0 \<le> p \<and> p \<le> 100"
  using validating_value_range[of _ n] loading_value_range[of _ n]
  by (auto simp: schedule_def) force+

lemma last_schedule: "last (schedule n) = 100"
  by (simp add: schedule_def)

lemma length_schedule: "length (schedule n) = 2 * n + 3"
  by (simp add: schedule_def)

lemma schedule_nth_validating: "0 < n \<Longrightarrow> schedule n ! (n - 1) = 20"
  using validating_value_last[of n] by (simp add: schedule_def nth_append)

lemma schedule_nth_loading: "0 < n \<Longrightarrow> schedule n ! (2 * n - 1) = 60"
proof -
  assume n: "0 < n"
  then have "2 * n - 1 - n = n - 1" and "\<not> 2 * n - 1 < n" by simp_all
  then show ?thesis using n loading_value_last[of n] by (simp add: schedule_def nth_append)
qed

lemma map_upt_prefix: "k \<le> n \<Longrightarrow> prefix (map f [0..<k]) (map f [0..<n] @ rest)"
proof -
  assume "k \<le> n"
  then have "[0..<n] = [0..<k] @ [k..<n]" by (metis le_add_diff_inverse upt_add_eq_append zero_le)
  then show ?thesis by (simp add: prefix_def)
qed

lemma progress_merge_and_save:
  "merge_and_save c ds sv out = (evs, r) \<Longrightarrow>
     prefix (progress_values evs) [70, 85, 100] \<and>
     ((\<exists>u. r = Inr u) \<longrightarrow> progress_values evs = [70, 85, 100])"
  by (auto simp: merge_and_save_def prefix_def split: sum.splits)

lemma run_progress_prefix: "prefix (progress_values (run c fs sv out)) (schedule (length fs))"
proof -
  let ?n = "length fs"
  let ?ok = "takeWhile (accessible c) fs"
  let ?ld = "takeWhile (loadable c) fs"
  obtain ev3 r where ms: "merge_and_save c (loaded_tables c fs) sv out = (ev3, r)" by force
  have k1: "length ?ok \<le> ?n" and k2: "length ?ld \<le> ?n" by (rule length_takeWhile_le)+
  have p3: "prefix (progress_values ev3) [70, 85, 100]"
    using progress_merge_and_save[OF ms] by simp
  consider (a) "?ok \<noteq> fs" | (b) "?ok = fs" "?ld \<noteq> fs" | (c) "?ok = fs" "?ld = fs" by blast
  then show ?thesis
  proof cases
    case a
    then show ?thesis
      using map_upt_prefix[OF k1]
      by (simp add: run_eq Let_def progress_values_append progress_validating_trace schedule_def)
  next
    case b
    then show ?thesis
      using map_upt_prefix[OF k2]
      by (simp add: run_eq Let_def progress_values_append progress_validating_trace
          progress_loading_trace schedule_def)
  next
    case c
    then show ?thesis
      using p3 ms
      by (cases r)
        (simp_all add: run_eq Let_def progress_values_append progress_validating_trace
          progress_loading_trace schedule_def)
  qed
qed

lemma run_success:
  assumes "is_success (run c fs sv out)"
  shows "takeWhile (accessible c) fs = fs" and "takeWhile (loadable c) fs = fs"
    and "\<exists>ev3 u. merge_and_save c (loaded_tables c fs) sv out = (ev3, Inr u)"
proof -
  obtain ev3 r where ms: "merge_and_save c (loaded_tables c fs) sv out = (ev3, r)" by force
  show ok: "takeWhile (accessible c) fs = fs"
    using assms by (rule contrapos_pp) (simp add: run_eq Let_def is_success_append)
  show ld: "takeWhile (loadable c) fs = fs"
    using assms ok by (rule_tac ccontr) (simp add: run_eq Let_def is_success_append)
  show "\<exists>ev3 u. merge_and_save c (loaded_tables c fs) sv out = (ev3, Inr u)"
    using assms ok ld ms by (cases r) (simp_all add: run_eq Let_def is_success_append)
qed

lemma run_success_trace:
  assumes "is_success (run c fs sv out)"
  shows "progress_values (run c fs sv out) = schedule (length fs)"
    and "prefix (validating_trace (length fs) 0 fs @ loading_trace (length fs) 0 fs) (run c fs sv out)"
proof -
  from run_success[OF assms] obtain ev3 u
    where ok: "takeWhile (accessible c) fs = fs" and ld: "takeWhile (loadable c) fs = fs"
      and ms: "merge_and_save c (loaded_tables c fs) sv out = (ev3, Inr u)" by blast
  have "progress_values ev3 = [70, 85, 100]" using progress_merge_and_save[OF ms] by simp
  then show "progress_values (run c fs sv out) = schedule (length fs)"
    using ok ld ms
    by (simp add: run_eq Let_def progress_values_append progress_validating_trace
        progress_loading_trace schedule_def)
  show "prefix (validating_trace (length fs) 0 fs @ loading_trace (length fs) 0 fs) (run c fs sv out)"
    using ok ld ms by (simp add: run_eq Let_def prefix_def)
qed

lemma prefix_sorted: "prefix xs ys \<Longrightarrow> sorted ys \<Longrightarrow> sorted xs"
  by (auto simp: prefix_def sorted_append)

lemma prefix_nth: "prefix xs ys \<Longrightarrow> i < length xs \<Longrightarrow> xs ! i = ys ! i"
  by (auto simp: prefix_def nth_append)




lemma run_progress_length:
  assumes "takeWhile (accessible c) fs = fs"
  shows "length fs \<le> length (progress_values (run c fs sv out))"
    and "takeWhile (loadable c) fs = fs \<Longrightarrow> 2 * length fs \<le> length (progress_values (run c fs sv out))"
  using assms
  by (simp_all add: run_eq Let_def progress_values_append progress_validating_trace
      progress_loading_trace split: prod.splits sum.splits)

section \<open>The claims about the run\<close>



text \<open>
  C2. For every run the sequence of progress values is non-decreasing, and a run that ends
  with the success signal has 100 as its last progress value.
\<close>

theorem progress_non_decreasing:
  "sorted (progress_values (run c fs sv out)) \<and>
   (is_success (run c fs sv out) \<longrightarrow> last (progress_values (run c fs sv out)) = 100)"
  using prefix_sorted[OF run_progress_prefix sorted_schedule, of c fs sv out]
    run_success_trace(1)[of c fs sv out] last_schedule[of "length fs"]
  by auto

theorem progress_non_decreasing_witness:
  "is_success (run stub [''a.xlsx'', ''b.xlsx''] [] ''out.xlsx'') \<and>
   last (progress_values (run stub [''a.xlsx'', ''b.xlsx''] [] ''out.xlsx'')) = 100"
proof -
  have h: "is_success (run stub [''a.xlsx'', ''b.xlsx''] [] ''out.xlsx'')"
    by code_simp
  with progress_non_decreasing[of stub "[''a.xlsx'', ''b.xlsx'']" "[]" "''out.xlsx''"]
  show ?thesis by blast
qed


text \<open>
  C10. Every progress value a run emits is an integer between 0 and 100. For a non-empty
  list of \<open>n\<close> files, when every file passes the accessibility check the \<open>n\<close>-th progress
  value, the last one of the Validating phase, is exactly 20; when every file also loads,
  the \<open>2 n\<close>-th progress value, the last one of the Loading phase, is exactly 60.
\<close>

theorem progress_band_endpoints:
  "(\<forall>p\<in>set (progress_values (run c fs sv out)). 0 \<le> p \<and> p \<le> 100) \<and>
   (fs \<noteq> [] \<and> (\<forall>f\<in>set fs. accessible c f) \<longrightarrow>
      progress_values (run c fs sv out) ! (length fs - 1) = 20) \<and>
   (fs \<noteq> [] \<and> (\<forall>f\<in>set fs. accessible c f) \<and> (\<forall>f\<in>set fs. loadable c f) \<longrightarrow>
      progress_values (run c fs sv out) ! (2 * length fs - 1) = 60)"
proof (intro conjI ballI impI)
  let ?pv = "progress_values (run c fs sv out)"
  have pre: "prefix ?pv (schedule (length fs))" by (rule run_progress_prefix)
  {
    fix p assume "p \<in> set ?pv"
    then have "p \<in> set (schedule (length fs))" using pre by (auto simp: prefix_def)
    then have "0 \<le> p \<and> p \<le> 100" by (rule schedule_range)
    then show "0 \<le> p" and "p \<le> 100" by simp_all
  }
  {
    assume a: "fs \<noteq> [] \<and> (\<forall>f\<in>set fs. accessible c f)"
    then have ok: "takeWhile (accessible c) fs = fs" by simp
    have "length fs - 1 < length ?pv" using run_progress_length(1)[OF ok, of sv out] a by (cases fs) simp_all
    then show "?pv ! (length fs - 1) = 20"
      using prefix_nth[OF pre] schedule_nth_validating[of "length fs"] a by simp
  }
  {
    assume a: "fs \<noteq> [] \<and> (\<forall>f\<in>set fs. accessible c f) \<and> (\<forall>f\<in>set fs. loadable c f)"
    then have ok: "takeWhile (accessible c) fs = fs" and ld: "takeWhile (loadable c) fs = fs"
      by simp_all
    have "2 * length fs - 1 < length ?pv"
      using run_progress_length(2)[OF ok ld, of sv out] a by (cases fs) simp_all
    then show "?pv ! (2 * length fs - 1) = 60"
      using prefix_nth[OF pre] schedule_nth_loading[of "length fs"] a by simp
  }
qed

theorem progress_band_endpoints_witness:
  "(46::int) \<in> set (progress_values (run stub [''a.xlsx'', ''b.xlsx'', ''c.xlsx''] [] ''o.xlsx'')) \<and>
   (0::int) \<le> 46 \<and> (46::int) \<le> 100 \<and>
   [''a.xlsx'', ''b.xlsx'', ''c.xlsx''] \<noteq> [] \<and>
   accessible stub ''a.xlsx'' \<and> accessible stub ''b.xlsx'' \<and> accessible stub ''c.xlsx'' \<and>
   loadable stub ''a.xlsx'' \<and> loadable stub ''b.xlsx'' \<and> loadable stub ''c.xlsx'' \<and>
   progress_values (run stub [''a.xlsx'', ''b.xlsx'', ''c.xlsx''] [] ''o.xlsx'')
     ! (length [''a.xlsx'', ''b.xlsx'', ''c.xlsx''] - 1) = 20 \<and>
   progress_values (run stub [''a.xlsx'', ''b.xlsx'', ''c.xlsx''] [] ''o.xlsx'')
     ! (2 * length [''a.xlsx'', ''b.xlsx'', ''c.xlsx''] - 1) = 60"
proof -
  have h0: "(46::int) \<in> set (progress_values (run stub [''a.xlsx'', ''b.xlsx'', ''c.xlsx''] [] ''o.xlsx''))"
    by code_simp
  have h1: "[''a.xlsx'', ''b.xlsx'', ''c.xlsx''] \<noteq> []" by simp
  have a: "accessible stub ''a.xlsx''" "accessible stub ''b.xlsx''" "accessible stub ''c.xlsx''"
    by (simp_all add: accessible_def stub_def)
  have l: "loadable stub ''a.xlsx''" "loadable stub ''b.xlsx''" "loadable stub ''c.xlsx''"
    by (simp_all add: loadable_def stub_def)
  have h2: "\<forall>f\<in>set [''a.xlsx'', ''b.xlsx'', ''c.xlsx'']. accessible stub f" using a by simp
  have h3: "\<forall>f\<in>set [''a.xlsx'', ''b.xlsx'', ''c.xlsx'']. loadable stub f" using l by simp
  note t = progress_band_endpoints[of stub "[''a.xlsx'', ''b.xlsx'', ''c.xlsx'']" "[]" "''o.xlsx''"]
  from t h0 have r: "(0::int) \<le> 46 \<and> (46::int) \<le> 100" by blast
  from t h1 h2 h3 r h0 a l show ?thesis by blast
qed










lemma selected_files_valid:
  "f \<in> set (input_files (select_files c files w)) \<Longrightarrow>
     f \<in> set (input_files w) \<or> is_valid_excel_file c f"
  by (auto simp: select_files_def Let_def split: if_splits)




text \<open>
  C5, as stated, does not hold: \<^verbatim>\<open>ProcessingThread.run\<close> has no check for an empty list.
  Started on no files it skips both loops, merges the empty list, saves the result and
  reports success.
\<close>

theorem empty_run_counterexample:
  "run stub [] [] ''out.xlsx'' =
     [Progress 70, Process [] [], Progress 85, Save [] ''out.xlsx'', Progress 100,
      Complete ''Successfully processed 0 files and saved to out.xlsx!'']"
  by code_simp

text \<open>
  C5, amended. An empty list of input files is rejected by \<^verbatim>\<open>MainWindow.process_files\<close>,
  the only place that creates a processing thread, with the warning "No Files": no thread
  is started, so no phase starts, nothing is emitted and nothing is saved.
\<close>

theorem empty_input_rejected:
  "process_files c (w\<lparr>input_files := []\<rparr>) = Warning ''No Files'' ''Please select input files first.'' \<and>
   events_of (process_files c (w\<lparr>input_files := []\<rparr>)) = []"
  by (simp add: process_files_def)


section \<open>The claim about metadata validation\<close>













section \<open>The claims about merging\<close>

subsection \<open>The union of the headers\<close>

lemma union_header_concat:
  "union_header tables = fold (\<lambda>col h. add_column h col) (concat (map header tables)) []"
proof -
  have "fold (\<lambda>t hdr. fold (\<lambda>col h. add_column h col) (header t) hdr) tables acc =
        fold (\<lambda>col h. add_column h col) (concat (map header tables)) acc" for acc
    by (induction tables arbitrary: acc) simp_all
  then show ?thesis by (simp add: union_header_def)
qed

lemma fold_add_column_subseq:
  "\<exists>zs. fold (\<lambda>col h. add_column h col) cols acc = acc @ zs \<and> subseq zs cols"
proof (induction cols arbitrary: acc)
  case Nil
  show ?case by simp
next
  case (Cons c cs)
  from Cons.IH[of "add_column acc c"] obtain zs
    where zs: "fold (\<lambda>col h. add_column h col) cs (add_column acc c) = add_column acc c @ zs"
      and sub: "subseq zs cs" by blast
  show ?case
  proof (cases "lower c \<in> set (map lower acc)")
    case True
    then have "fold (\<lambda>col h. add_column h col) (c # cs) acc = acc @ zs"
      using zs by (simp add: add_column_def)
    moreover have "subseq zs (c # cs)" using sub by (rule list_emb_Cons)
    ultimately show ?thesis by blast
  next
    case False
    then have "fold (\<lambda>col h. add_column h col) (c # cs) acc = acc @ (c # zs)"
      using zs by (simp add: add_column_def)
    moreover have "subseq (c # zs) (c # cs)" using sub by simp
    ultimately show ?thesis by blast
  qed
qed

lemma fold_add_column_distinct:
  "distinct (map lower acc) \<Longrightarrow>
     distinct (map lower (fold (\<lambda>col h. add_column h col) cols acc))"
  by (induction cols arbitrary: acc) (auto simp: add_column_def)

lemma fold_add_column_set:
  "set (map lower (fold (\<lambda>col h. add_column h col) cols acc)) =
     set (map lower acc) \<union> set (map lower cols)"
  by (induction cols arbitrary: acc) (auto simp: add_column_def)

lemma find_append:
  "find P (xs @ ys) = (case find P xs of None \<Rightarrow> find P ys | Some x \<Rightarrow> Some x)"
  by (induction xs) simp_all

lemma find_first_with_key:
  "distinct (map f xs) \<Longrightarrow> u \<in> set xs \<Longrightarrow> find (\<lambda>c. f c = f u) xs = Some u"
  by (induction xs) (auto simp: image_iff)

lemma find_None_key: "f u \<notin> set (map f xs) \<Longrightarrow> find (\<lambda>c. f c = f u) xs = None"
  by (induction xs) auto

lemma fold_add_column_first_seen:
  "distinct (map lower acc) \<Longrightarrow> u \<in> set (fold (\<lambda>col h. add_column h col) cols acc) \<Longrightarrow>
     find (\<lambda>c. lower c = lower u) (acc @ cols) = Some u"
proof (induction cols arbitrary: acc)
  case Nil
  then show ?case by (simp add: find_first_with_key)
next
  case (Cons c cs)
  show ?case
  proof (cases "lower c \<in> set (map lower acc)")
    case True
    then have same: "add_column acc c = acc" by (simp add: add_column_def)
    have ih: "find (\<lambda>c. lower c = lower u) (acc @ cs) = Some u"
      using Cons.IH[of acc] Cons.prems same by simp
    show ?thesis
    proof (cases "find (\<lambda>c. lower c = lower u) acc")
      case None
      then have "lower u \<notin> set (map lower acc)"
        by (auto simp: find_None_iff)
      then have "lower c \<noteq> lower u" using True by auto
      then show ?thesis using ih None by (simp add: find_append)
    next
      case (Some a)
      then show ?thesis using ih by (simp add: find_append)
    qed
  next
    case False
    then have new: "add_column acc c = acc @ [c]" by (simp add: add_column_def)
    have "distinct (map lower (acc @ [c]))" using Cons.prems(1) False by simp
    from Cons.IH[OF this] Cons.prems(2) new show ?thesis by simp
  qed
qed

lemma union_header_props:
  "subseq (union_header tables) (concat (map header tables))"
  "distinct (map lower (union_header tables))"
  "set (map lower (union_header tables)) = set (map lower (concat (map header tables)))"
  "u \<in> set (union_header tables) \<Longrightarrow>
     find (\<lambda>col. lower col = lower u) (concat (map header tables)) = Some u"
proof -
  from fold_add_column_subseq[of "concat (map header tables)" "[]"]
  show "subseq (union_header tables) (concat (map header tables))"
    by (auto simp: union_header_concat)
  show "distinct (map lower (union_header tables))"
    unfolding union_header_concat by (rule fold_add_column_distinct) simp
  show "set (map lower (union_header tables)) = set (map lower (concat (map header tables)))"
    unfolding union_header_concat fold_add_column_set by simp
  show "find (\<lambda>col. lower col = lower u) (concat (map header tables)) = Some u"
    if "u \<in> set (union_header tables)"
    using fold_add_column_first_seen[of "[]" u "concat (map header tables)"] that
    by (simp add: union_header_concat)
qed

subsection \<open>Rows\<close>

lemma merge_row_count:
  "merge irr tables md = Inr t \<Longrightarrow> length (rows t) = (\<Sum>s\<leftarrow>tables. length (rows s))"
  by (auto simp: merge_def length_concat comp_def split: if_splits)

lemma saved_tables_append: "saved_tables (xs @ ys) = saved_tables xs @ saved_tables ys"
  by (induction xs rule: saved_tables.induct) simp_all

lemma saved_validating_trace: "saved_tables (validating_trace n i fs) = []"
  by (induction fs arbitrary: i) simp_all

lemma saved_loading_trace: "saved_tables (loading_trace n i fs) = []"
  by (induction fs arbitrary: i) simp_all

lemma length_loaded_tables:
  "takeWhile (loadable c) fs = fs \<Longrightarrow> length (loaded_tables c fs) = length fs"
proof (induction fs)
  case Nil
  show ?case by (simp add: loaded_tables_def)
next
  case (Cons f fs)
  then have l: "loadable c f" and rest: "takeWhile (loadable c) fs = fs"
    by (auto split: if_splits)
  from l obtain d where "load_excel_file c f = Inr d"
    by (auto simp: loadable_def split: sum.splits)
  then have "loaded_tables c (f # fs) = d # loaded_tables c fs" by (simp add: loaded_tables_def)
  then show ?case using Cons.IH[OF rest] by simp
qed

lemma run_success_saved:
  assumes "is_success (run c fs sv out)"
  shows "\<exists>p. excel_process_files c (loaded_tables c fs) sv = Inr p \<and>
             saved_tables (run c fs sv out) = [p]"
proof -
  from run_success[OF assms] obtain ev3 u
    where ok: "takeWhile (accessible c) fs = fs" and ld: "takeWhile (loadable c) fs = fs"
      and ms: "merge_and_save c (loaded_tables c fs) sv out = (ev3, Inr u)" by blast
  from ms obtain p where p: "excel_process_files c (loaded_tables c fs) sv = Inr p"
    and ev3: "saved_tables ev3 = [p]"
    by (auto simp: merge_and_save_def split: sum.splits)
  have "saved_tables (run c fs sv out) = [p]"
    using ok ld ms ev3
    by (simp add: run_eq Let_def saved_tables_append saved_validating_trace saved_loading_trace)
  with p show ?thesis by blast
qed

text \<open>
  C7. The merge creates no rows and drops none: the merged table has as many rows as its
  input tables together. In a run that succeeds every input file has been loaded, the
  merge is applied once to the loaded tables in input order, and the table handed to the
  save is its result; so the output has as many rows as the loaded tables together.
\<close>

theorem merge_keeps_row_count:
  "(merge irr tables md = Inr t \<longrightarrow> length (rows t) = (\<Sum>s\<leftarrow>tables. length (rows s))) \<and>
   (excel_process_files c = merge irr \<and> is_success (run c fs sv out) \<longrightarrow>
      length (loaded_tables c fs) = length fs \<and>
      (\<exists>m. saved_tables (run c fs sv out) = [m] \<and>
           merge irr (loaded_tables c fs) sv = Inr m \<and>
           length (rows m) = (\<Sum>s\<leftarrow>loaded_tables c fs. length (rows s))))"
proof (intro conjI impI)
  assume "merge irr tables md = Inr t"
  then show "length (rows t) = (\<Sum>s\<leftarrow>tables. length (rows s))" by (rule merge_row_count)
next
  assume a: "excel_process_files c = merge irr \<and> is_success (run c fs sv out)"
  then have s: "is_success (run c fs sv out)" by simp
  show "length (loaded_tables c fs) = length fs"
    using run_success(2)[OF s] by (rule length_loaded_tables)
  from run_success_saved[OF s] obtain m
    where m: "excel_process_files c (loaded_tables c fs) sv = Inr m"
      and sv: "saved_tables (run c fs sv out) = [m]" by blast
  from m a have mm: "merge irr (loaded_tables c fs) sv = Inr m" by simp
  from merge_row_count[OF mm] sv mm
  show "\<exists>m. saved_tables (run c fs sv out) = [m] \<and>
           merge irr (loaded_tables c fs) sv = Inr m \<and>
           length (rows m) = (\<Sum>s\<leftarrow>loaded_tables c fs. length (rows s))" by blast
qed

theorem merge_keeps_row_count_witness:
  "excel_process_files table_collaborators = merge (\<lambda>_. False) \<and>
   is_success (run table_collaborators [''a.xlsx'', ''b.xlsx''] demo_metadata ''out.xlsx'') \<and>
   loaded_tables table_collaborators [''a.xlsx'', ''b.xlsx''] = [sales_a, sales_b] \<and>
   (\<exists>m. saved_tables (run table_collaborators [''a.xlsx'', ''b.xlsx''] demo_metadata ''out.xlsx'') = [m] \<and>
        merge (\<lambda>_. False) [sales_a, sales_b] demo_metadata = Inr m \<and>
        length (rows m) = 3 + 2)"
proof -
  have h1: "excel_process_files table_collaborators = merge (\<lambda>_. False)"
    by (simp add: table_collaborators_def)
  have h2: "is_success (run table_collaborators [''a.xlsx'', ''b.xlsx''] demo_metadata ''out.xlsx'')"
    by code_simp
  have l: "loaded_tables table_collaborators [''a.xlsx'', ''b.xlsx''] = [sales_a, sales_b]"
    by (simp add: loaded_tables_def table_collaborators_def)
  have n: "(\<Sum>s\<leftarrow>[sales_a, sales_b]. length (rows s)) = 3 + 2"
    by (simp add: sales_a_def sales_b_def)
  from merge_keeps_row_count[where irr = "\<lambda>_. False" and c = table_collaborators
      and fs = "[''a.xlsx'', ''b.xlsx'']" and sv = demo_metadata and out = "''out.xlsx''"] h1 h2
  obtain m where "saved_tables (run table_collaborators [''a.xlsx'', ''b.xlsx''] demo_metadata ''out.xlsx'') = [m]"
    and "merge (\<lambda>_. False) (loaded_tables table_collaborators [''a.xlsx'', ''b.xlsx'']) demo_metadata = Inr m"
    and "length (rows m) = (\<Sum>s\<leftarrow>loaded_tables table_collaborators [''a.xlsx'', ''b.xlsx'']. length (rows s))"
    by blast
  then show ?thesis using h1 h2 l n by auto
qed

text \<open>
  C8. The header of the merged table is the union of the source headers followed by the
  five metadata keys in their fixed order. The union keeps the order in which the columns
  are first seen when the tables are read in input order, holds each column name once up to
  letter case, holds every source column up to letter case, and spells each name as its
  first occurrence does. It depends on the headers and their order only.
\<close>

theorem merged_header_union:
  "merge irr tables md = Inr t \<Longrightarrow>
     header t = union_header tables @ metadata_keys \<and>
     subseq (union_header tables) (concat (map header tables)) \<and>
     distinct (map lower (union_header tables)) \<and>
     set (map lower (union_header tables)) = set (map lower (concat (map header tables))) \<and>
     (\<forall>u\<in>set (union_header tables).
        find (\<lambda>col. lower col = lower u) (concat (map header tables)) = Some u) \<and>
     (\<forall>tables'. map header tables' = map header tables \<longrightarrow> union_header tables' = union_header tables)"
proof -
  assume m: "merge irr tables md = Inr t"
  then have h: "header t = union_header tables @ metadata_keys"
    by (auto simp: merge_def split: if_splits)
  have det: "\<forall>tables'. map header tables' = map header tables \<longrightarrow> union_header tables' = union_header tables"
    by (simp add: union_header_concat)
  show ?thesis using h det union_header_props[where tables = tables] by blast
qed

theorem merged_header_union_witness:
  "\<exists>t. merge (\<lambda>_. False) [sales_a, sales_b, regions] demo_metadata = Inr t \<and>
       header t = [''Name'', ''Amount'', ''Region'', ''project_name'', ''department'', ''analyst'',
                   ''report_date'', ''version'']"
proof -
  have u: "union_header [sales_a, sales_b, regions] = [''Name'', ''Amount'', ''Region'']"
    by code_simp
  obtain t where t: "merge (\<lambda>_. False) [sales_a, sales_b, regions] demo_metadata = Inr t"
    by (simp add: merge_def)
  from merged_header_union[OF t] u
  have "header t = [''Name'', ''Amount'', ''Region'', ''project_name'', ''department'', ''analyst'',
                   ''report_date'', ''version'']"
    by (simp add: metadata_keys_def)
  with t show ?thesis by blast
qed

section \<open>The claim about saving\<close>

lemma dirname_temp_path: "dirname (temp_path path) = dirname path"
  by (simp add: dirname_def temp_path_def)

lemma temp_path_neq: "temp_path path \<noteq> path"
  by (simp add: temp_path_def)

lemma write_states_other:
  "s \<in> set (write_states fs tmp data k) \<Longrightarrow> p \<noteq> tmp \<Longrightarrow> s p = fs p"
  by (auto simp: write_states_def)

lemma write_states_nonempty: "write_states fs tmp data k \<noteq> []"
  by (simp add: write_states_def)

lemma save_fault:
  assumes "save serialize flt t path fs = (states, r)" and "flt \<noteq> NoFault"
  shows "r = Inl ''WriteError''" and "states \<noteq> []"
    and "s \<in> set states \<Longrightarrow> p \<noteq> temp_path path \<Longrightarrow> s p = fs p"
proof -
  from assms obtain k where st: "states = write_states fs (temp_path path) (serialize t) k"
    and r: "r = Inl ''WriteError''"
    by (cases flt) (auto simp: save_def Let_def)
  show "r = Inl ''WriteError''" by (rule r)
  show "states \<noteq> []" unfolding st by (rule write_states_nonempty)
  show "s p = fs p" if "s \<in> set states" "p \<noteq> temp_path path"
    using that unfolding st by (rule write_states_other)
qed

lemma save_ok:
  assumes "save serialize NoFault t path fs = (states, r)"
  shows "r = Inr ()"
    and "last states path = Some (serialize t)" and "last states (temp_path path) = None"
    and "s \<in> set states \<Longrightarrow> s path = fs path \<or> s path = Some (serialize t)"
    and "s \<in> set states \<Longrightarrow> p \<noteq> path \<Longrightarrow> p \<noteq> temp_path path \<Longrightarrow> s p = fs p"
proof -
  let ?tmp = "temp_path path"
  let ?data = "serialize t"
  from assms have st: "states = write_states fs ?tmp ?data (length ?data) @
      [rename ?tmp path (fs(?tmp \<mapsto> ?data))]" and r: "r = Inr ()"
    by (auto simp: save_def Let_def)
  show "r = Inr ()" by (rule r)
  show "last states path = Some ?data"
    unfolding st using temp_path_neq[of path] by (simp add: rename_def)
  show "last states ?tmp = None"
    unfolding st by (simp add: rename_def)
  show "s path = fs path \<or> s path = Some ?data" if "s \<in> set states"
    using that temp_path_neq[of path] write_states_other[of s fs ?tmp ?data "length ?data" path]
    unfolding st by (auto simp: rename_def)
  show "s p = fs p" if "s \<in> set states" "p \<noteq> path" "p \<noteq> ?tmp"
    using that write_states_other[of s fs ?tmp ?data "length ?data" p]
    unfolding st by (auto simp: rename_def)
qed

text \<open>
  C9. A save writes the serialized table to a temporary path in the directory of the
  destination and then renames it over the destination. In every state the file system
  goes through, the destination holds either what it held before or the complete new
  contents, and no other file than the temporary one changes. Without a fault the save
  succeeds, the destination holds the new contents and the temporary file is gone. When the
  write or the rename fails, the save fails with a WriteError and the destination is what
  it was before.
\<close>

theorem atomic_save:
  "save serialize flt t path fs = (states, r) \<Longrightarrow>
     dirname (temp_path path) = dirname path \<and> temp_path path \<noteq> path \<and>
     (\<forall>s\<in>set states. s path = fs path \<or> s path = Some (serialize t)) \<and>
     (\<forall>s\<in>set states. \<forall>p. p \<noteq> path \<and> p \<noteq> temp_path path \<longrightarrow> s p = fs p) \<and>
     (flt = NoFault \<longrightarrow>
        r = Inr () \<and> last states path = Some (serialize t) \<and> last states (temp_path path) = None) \<and>
     (flt \<noteq> NoFault \<longrightarrow>
        r = Inl ''WriteError'' \<and> states \<noteq> [] \<and> (\<forall>s\<in>set states. s path = fs path))"
proof -
  assume a: "save serialize flt t path fs = (states, r)"
  show ?thesis
  proof (cases "flt = NoFault")
    case True
    with a have b: "save serialize NoFault t path fs = (states, r)" by simp
    show ?thesis
      using True dirname_temp_path[of path] temp_path_neq[of path] save_ok[OF b] by blast
  next
    case False
    have same: "s path = fs path" if "s \<in> set states" for s
      using save_fault(3)[OF a False that] temp_path_neq[of path] by metis
    have other: "s p = fs p" if "s \<in> set states" "p \<noteq> temp_path path" for s p
      using save_fault(3)[OF a False that] .
    show ?thesis
      using False dirname_temp_path[of path] temp_path_neq[of path] save_fault(1,2)[OF a False]
        same other by blast
  qed
qed

theorem atomic_save_witness:
  "WriteFails 2 \<noteq> NoFault \<and>
   snd (save id (WriteFails 2) ''abc'' ''d/out.xlsx'' [''d/out.xlsx'' \<mapsto> ''old'']) = Inl ''WriteError'' \<and>
   last (fst (save id (WriteFails 2) ''abc'' ''d/out.xlsx'' [''d/out.xlsx'' \<mapsto> ''old''])) ''d/out.xlsx''
     = Some ''old'' \<and>
   last (fst (save id NoFault ''abc'' ''d/out.xlsx'' [''d/out.xlsx'' \<mapsto> ''old''])) ''d/out.xlsx''
     = Some ''abc''"
proof -
  let ?fs = "[''d/out.xlsx'' \<mapsto> ''old'']"
  obtain st1 r1 where s1: "save id (WriteFails 2) ''abc'' ''d/out.xlsx'' ?fs = (st1, r1)" by force
  obtain st2 r2 where s2: "save id NoFault ''abc'' ''d/out.xlsx'' ?fs = (st2, r2)" by force
  have f: "WriteFails 2 \<noteq> NoFault" by simp
  from atomic_save[OF s1] f have "r1 = Inl ''WriteError''" and ne: "st1 \<noteq> []"
    and "\<forall>s\<in>set st1. s ''d/out.xlsx'' = ?fs ''d/out.xlsx''" by blast+
  then have "last st1 ''d/out.xlsx'' = ?fs ''d/out.xlsx''" using last_in_set[OF ne] by blast
  moreover from atomic_save[OF s2] have "last st2 ''d/out.xlsx'' = Some (id ''abc'')" by blast
  ultimately show ?thesis using s1 s2 f \<open>r1 = Inl ''WriteError''\<close> by simp
qed

end
